theory Spec2Isabelle
  imports Complex_Main "HOL-Library.Monad_Syntax"
begin

section \<open>Nodes and the object store\<close>

text \<open>
  A JavaScript string is modelled as a \<^typ>\<open>string\<close> (a list of characters, one per
  code unit).  The value held by a node is either a string or \<open>undefined\<close>: the root
  of a tree built from the empty input holds \<open>input[0]\<close>, which is \<open>undefined\<close>.
\<close>

datatype jsval = Undefined | Str string

text \<open>
  The class \<open>BTreeNode\<close> of \<^verbatim>\<open>BTreeNode.js\<close>.  Objects live in a store, a list of
  node records; the reference to an object is its index in the store, and \<open>null\<close> is
  \<^const>\<open>None\<close>.  The field \<open>value\<close> of the source is \<open>node_value\<close> here.
\<close>

record BTreeNode =
  node_value :: jsval
  leftChild :: "nat option"
  rightChild :: "nat option"

text \<open>\<open>new BTreeNode(value)\<close>: a fresh object with both child slots \<open>null\<close>; the
  reference of the new object and the extended store are returned.\<close>

definition new_BTreeNode :: "jsval \<Rightarrow> BTreeNode list \<Rightarrow> nat \<times> BTreeNode list" where
  "new_BTreeNode v h =
     (length h, h @ [\<lparr>node_value = v, leftChild = None, rightChild = None\<rparr>])"

definition setLeftChild :: "nat \<Rightarrow> nat option \<Rightarrow> BTreeNode list \<Rightarrow> BTreeNode list" where
  "setLeftChild this v h = h[this := (h ! this)\<lparr>leftChild := v\<rparr>]"

definition setRightChild :: "nat \<Rightarrow> nat option \<Rightarrow> BTreeNode list \<Rightarrow> BTreeNode list" where
  "setRightChild this v h = h[this := (h ! this)\<lparr>rightChild := v\<rparr>]"

section \<open>Parsing the input\<close>

text \<open>
  The loop of \<open>parseInput\<close> that copies every character different from the space
  character \<open>" "\<close> to the end of \<open>parsedInput\<close>.
\<close>

fun remove_spaces :: "string \<Rightarrow> string \<Rightarrow> string" where
  "remove_spaces parsedInput [] = parsedInput"
| "remove_spaces parsedInput (c # cs) =
     remove_spaces (if c \<noteq> CHR '' '' then parsedInput @ [c] else parsedInput) cs"

text \<open>
  \<open>String.prototype.split(",")\<close>: the pieces between the commas, in order, empty pieces
  included; a string without a comma (the empty string too) gives one piece.  The
  first argument is the piece read so far.
\<close>

fun split_comma :: "string \<Rightarrow> string \<Rightarrow> string list" where
  "split_comma cur [] = [cur]"
| "split_comma cur (c # cs) =
     (if c = CHR '','' then cur # split_comma [] cs else split_comma (cur @ [c]) cs)"

text \<open>A token of the parsed input: \<^const>\<open>None\<close> is the \<open>null\<close> sentinel.\<close>

definition parseInput :: "string \<Rightarrow> string option list" where
  "parseInput inputVal =
     map (\<lambda>e. if e = ''null'' then None else Some e)
       (split_comma [] (remove_spaces [] inputVal))"

section \<open>Building the tree\<close>

text \<open>
  The local state of \<open>treeConstructor\<close>: the store, the queue of node references and
  the index of the next token.
\<close>

record builder =
  heap :: "BTreeNode list"
  queue :: "nat list"
  idx :: nat

text \<open>\<open>input[i]\<close> on a string: the one-character string at \<open>i\<close>, \<open>undefined\<close> out of
  range.\<close>

definition char_at :: "string \<Rightarrow> nat \<Rightarrow> jsval" where
  "char_at s i = (if i < length s then Str [s ! i] else Undefined)"

text \<open>The block commented \<open>//left child\<close> in the loop of \<open>treeConstructor\<close>.\<close>

definition left_block :: "string option list \<Rightarrow> nat \<Rightarrow> builder \<Rightarrow> builder" where
  "left_block newinput node st =
     (if idx st < length newinput then
        (let st1 =
           (case newinput ! idx st of
              None \<Rightarrow> st
            | Some v \<Rightarrow>
                (let (leftNode, h1) = new_BTreeNode (Str v) (heap st)
                 in st\<lparr>heap := setLeftChild node (Some leftNode) h1,
                        queue := queue st @ [leftNode]\<rparr>))
         in st1\<lparr>idx := idx st1 + 1\<rparr>)
      else st)"

text \<open>The block commented \<open>//right child\<close>.\<close>

definition right_block :: "string option list \<Rightarrow> nat \<Rightarrow> builder \<Rightarrow> builder" where
  "right_block newinput node st =
     (if idx st < length newinput then
        (let st1 =
           (case newinput ! idx st of
              None \<Rightarrow> st
            | Some v \<Rightarrow>
                (let (rightNode, h1) = new_BTreeNode (Str v) (heap st)
                 in st\<lparr>heap := setRightChild node (Some rightNode) h1,
                        queue := queue st @ [rightNode]\<rparr>))
         in st1\<lparr>idx := idx st1 + 1\<rparr>)
      else st)"

text \<open>
  One iteration of the \<open>while\<close> loop: \<open>queue.shift()\<close>, then the two blocks.  The loop
  only runs the body on a non-empty queue.
\<close>

definition loop_body :: "string option list \<Rightarrow> builder \<Rightarrow> builder" where
  "loop_body newinput st =
     (let node = hd (queue st);
          st1 = st\<lparr>queue := tl (queue st)\<rparr>
      in right_block newinput node (left_block newinput node st1))"

definition loop_cond :: "string option list \<Rightarrow> builder \<Rightarrow> bool" where
  "loop_cond newinput st \<longleftrightarrow> length (queue st) > 0 \<and> idx st < length newinput"

lemma idx_left_block: "idx st \<le> idx (left_block newinput node st)"
  by (simp add: left_block_def Let_def new_BTreeNode_def split: option.split)

lemma idx_right_block: "idx st \<le> idx (right_block newinput node st)"
  by (simp add: right_block_def Let_def new_BTreeNode_def split: option.split)

lemma idx_left_block_less:
  "idx st < length newinput \<Longrightarrow> idx st < idx (left_block newinput node st)"
  by (simp add: left_block_def Let_def new_BTreeNode_def split: option.split)

lemma idx_loop_body_less:
  assumes "loop_cond newinput st"
  shows "idx st < idx (loop_body newinput st)"
proof -
  let ?st1 = "st\<lparr>queue := tl (queue st)\<rparr>"
  have "idx ?st1 < length newinput"
    using assms by (simp add: loop_cond_def)
  then have "idx ?st1 < idx (left_block newinput (hd (queue st)) ?st1)"
    by (rule idx_left_block_less)
  also have "\<dots> \<le> idx (loop_body newinput st)"
    by (simp add: loop_body_def Let_def idx_right_block)
  finally show ?thesis by simp
qed

lemma idx_left_block_le:
  "idx st \<le> length newinput \<Longrightarrow> idx (left_block newinput node st) \<le> length newinput"
  by (simp add: left_block_def Let_def new_BTreeNode_def split: option.split)

lemma idx_right_block_le:
  "idx st \<le> length newinput \<Longrightarrow> idx (right_block newinput node st) \<le> length newinput"
  by (simp add: right_block_def Let_def new_BTreeNode_def split: option.split)

text \<open>The \<open>while\<close> loop of \<open>treeConstructor\<close>.\<close>

function fill_loop :: "string option list \<Rightarrow> builder \<Rightarrow> builder" where
  "fill_loop newinput st =
     (if loop_cond newinput st then fill_loop newinput (loop_body newinput st) else st)"
  by pat_completeness auto
termination
proof (relation "measure (\<lambda>(newinput, st). length newinput - idx st)")
  show "wf (measure (\<lambda>(newinput, st). length newinput - idx st))" by simp
next
  fix newinput :: "string option list" and st :: builder
  assume c: "loop_cond newinput st"
  have "idx st < length newinput" using c by (simp add: loop_cond_def)
  moreover have "idx st < idx (loop_body newinput st)" using c by (rule idx_loop_body_less)
  ultimately show "((newinput, loop_body newinput st), (newinput, st))
      \<in> measure (\<lambda>(newinput, st). length newinput - idx st)"
    by simp
qed

declare fill_loop.simps [simp del]

text \<open>
  \<open>treeConstructor\<close>.  The result is the store holding the nodes together with the
  reference of the root; \<open>treeConstructor_run\<close> is the state in which the loop ends.
\<close>

definition treeConstructor_run :: "string \<Rightarrow> builder" where
  "treeConstructor_run input =
     (let newinput = parseInput input;
          (root, h) = new_BTreeNode (char_at input 0) []
      in fill_loop newinput \<lparr>heap = h, queue = [root], idx = 0 + 1\<rparr>)"

definition treeConstructor :: "string \<Rightarrow> BTreeNode list \<times> nat" where
  "treeConstructor input =
     (let (root, h) = new_BTreeNode (char_at input 0) []
      in (heap (treeConstructor_run input), root))"

section \<open>Height and canvas size\<close>

text \<open>
  Numbers are modelled exactly: a count is a \<^typ>\<open>nat\<close>, a coordinate a \<^typ>\<open>rat\<close>.
  The rounding of IEEE doubles is not modelled.

  A method that follows child references recurses through the store.  Its first
  argument bounds the depth of the call stack: the result \<^const>\<open>None\<close> says that
  the call did not return within that depth.
\<close>

text \<open>\<open>obj?.m()\<close>: \<open>undefined\<close> (the inner \<^const>\<open>None\<close>) when \<open>obj\<close> is \<open>null\<close>.\<close>

definition optional_call :: "('a \<Rightarrow> 'b option) \<Rightarrow> 'a option \<Rightarrow> 'b option option" where
  "optional_call m obj = (case obj of None \<Rightarrow> Some None | Some c \<Rightarrow> map_option Some (m c))"

text \<open>\<open>v || 0\<close> on a number or \<open>undefined\<close>: \<open>0\<close> when \<open>v\<close> is \<open>undefined\<close> or \<open>0\<close>.\<close>

definition or_zero :: "nat option \<Rightarrow> nat" where
  "or_zero v = (case v of None \<Rightarrow> 0 | Some n \<Rightarrow> if n = 0 then 0 else n)"

fun getBTreeHeight :: "nat \<Rightarrow> BTreeNode list \<Rightarrow> nat \<Rightarrow> nat option" where
  "getBTreeHeight 0 h this = None"
| "getBTreeHeight (Suc k) h this =
     do {
       l \<leftarrow> optional_call (getBTreeHeight k h) (leftChild (h ! this));
       r \<leftarrow> optional_call (getBTreeHeight k h) (rightChild (h ! this));
       let leftHeight = or_zero l;
       let rightHeight = or_zero r;
       Some (max leftHeight rightHeight + 1)
     }"

record node_config =
  radius :: rat
  nodeWidthSpacing :: rat
  nodeHeightSpacing :: rat
  fontSize :: rat

definition DEFAULT_NODE_CONFIG :: node_config where
  "DEFAULT_NODE_CONFIG =
     \<lparr>radius = 20, nodeWidthSpacing = 50, nodeHeightSpacing = 90, fontSize = 15\<rparr>"

record canvas_size =
  canvasWidth :: rat
  canvasHeight :: rat

definition getRequiredHeightWidth :: "nat \<Rightarrow> BTreeNode list \<Rightarrow> nat \<Rightarrow> canvas_size option" where
  "getRequiredHeightWidth k h root_node =
     do {
       heightOfTree \<leftarrow> getBTreeHeight k h root_node;
       let maxPosLeafNodes = (2::rat) ^ heightOfTree;
       let canvasHeight = of_nat heightOfTree * nodeHeightSpacing DEFAULT_NODE_CONFIG;
       let canvasWidth = maxPosLeafNodes * nodeWidthSpacing DEFAULT_NODE_CONFIG;
       Some \<lparr>canvasWidth = canvasWidth, canvasHeight = canvasHeight\<rparr>
     }"

section \<open>Layout\<close>

text \<open>
  The drawing surface is external.  The canvas is modelled by its two dimensions and
  the sequence of calls of the two drawing functions of \<^verbatim>\<open>treeUtils.js\<close> made on it,
  each with its arguments: \<open>drawNode(value, canvasEl, x, y)\<close> and
  \<open>connectEdges(canvasEl, {xStart, xEnd}, {yStart, yEnd})\<close>.
\<close>

datatype draw_call =
    DrawNode jsval rat rat
  | ConnectEdges "rat \<times> rat" "rat \<times> rat"

text \<open>What a layout pass can reach: the node objects and the canvas element.\<close>

record world =
  nodes :: "BTreeNode list"
  canvas_width :: rat
  canvas_height :: rat
  calls :: "draw_call list"

definition drawNode :: "jsval \<Rightarrow> rat \<Rightarrow> rat \<Rightarrow> world \<Rightarrow> world" where
  "drawNode v x y w = w\<lparr>calls := calls w @ [DrawNode v x y]\<rparr>"

definition connectEdges :: "rat \<times> rat \<Rightarrow> rat \<times> rat \<Rightarrow> world \<Rightarrow> world" where
  "connectEdges xCordinates yCordinates w =
     w\<lparr>calls := calls w @ [ConnectEdges xCordinates yCordinates]\<rparr>"

text \<open>
  \<open>recursivelyDrawNodes(root, canvasEl, currentLevel, horizontalConfig)\<close>; the pair is
  \<open>{xStart, xEnd}\<close>, and \<open>root_node\<close> is the parameter \<open>root\<close>.  The first argument
  bounds the call stack as above.
\<close>

fun recursivelyDrawNodes ::
  "nat \<Rightarrow> nat \<Rightarrow> rat \<Rightarrow> rat \<times> rat \<Rightarrow> world \<Rightarrow> world option" where
  "recursivelyDrawNodes 0 root_node currentLevel horizontalConfig w = None"
| "recursivelyDrawNodes (Suc k) root_node currentLevel (xStart, xEnd) w =
     (let xPos = (xStart + xEnd) / 2;
          yPos = currentLevel * nodeHeightSpacing DEFAULT_NODE_CONFIG;
          w1 = drawNode (node_value (nodes w ! root_node)) xPos yPos w
      in do {
        w2 \<leftarrow> (case leftChild (nodes w1 ! root_node) of
                 None \<Rightarrow> Some w1
               | Some l \<Rightarrow> do {
                   w' \<leftarrow> recursivelyDrawNodes k l (currentLevel + 1) (xStart, xPos) w1;
                   Some (connectEdges (xPos, (xStart + xPos) / 2)
                     (yPos + radius DEFAULT_NODE_CONFIG,
                      (currentLevel + 1) * nodeHeightSpacing DEFAULT_NODE_CONFIG
                        - radius DEFAULT_NODE_CONFIG) w')
                 });
        (case rightChild (nodes w2 ! root_node) of
           None \<Rightarrow> Some w2
         | Some r \<Rightarrow> do {
             w' \<leftarrow> recursivelyDrawNodes k r (currentLevel + 1) (xPos, xEnd) w2;
             Some (connectEdges (xPos, (xPos + xEnd) / 2)
               (yPos + radius DEFAULT_NODE_CONFIG,
                (currentLevel + 1) * nodeHeightSpacing DEFAULT_NODE_CONFIG
                  - radius DEFAULT_NODE_CONFIG) w')
           })
      })"

text \<open>
  \<open>drawBTree(rootEl, canvasEl)\<close>; \<open>innerWidth\<close> and \<open>innerHeight\<close> are the two
  dimensions read from \<open>window\<close>.
\<close>

definition drawBTree :: "nat \<Rightarrow> nat \<Rightarrow> rat \<Rightarrow> rat \<Rightarrow> world \<Rightarrow> world option" where
  "drawBTree k rootEl innerWidth innerHeight w =
     (let maxWidth = innerWidth;
          maxHeight = innerHeight;
          w1 = w\<lparr>canvas_width := maxWidth, canvas_height := maxHeight\<rparr>
      in do {
        sz \<leftarrow> getRequiredHeightWidth k (nodes w1) rootEl;
        let windowCenter = maxWidth / 2;
        let widthCenter = canvasWidth sz / 2;
        let xStart = windowCenter - widthCenter;
        let xEnd = windowCenter + widthCenter;
        recursivelyDrawNodes k rootEl (1 / 2) (xStart, xEnd) w1
      })"

section \<open>Notions used to state the properties\<close>

text \<open>
  The whitespace characters among the code units below \<open>0x100\<close>: tab, line feed,
  vertical tab, form feed, carriage return, space and no-break space.
\<close>

definition is_whitespace :: "char \<Rightarrow> bool" where
  "is_whitespace c \<longleftrightarrow>
     c \<in> set [CHR 0x09, CHR 0x0A, CHR 0x0B, CHR 0x0C, CHR 0x0D, CHR '' '', CHR 0xA0]"

text \<open>
  The parser as the specification words it: every whitespace character is removed
  before the split.
\<close>

definition parseInput_all_whitespace :: "string \<Rightarrow> string option list" where
  "parseInput_all_whitespace inputVal =
     map (\<lambda>e. if e = ''null'' then None else Some e)
       (split_comma [] (filter (\<lambda>c. \<not> is_whitespace c) inputVal))"

text \<open>The pieces put together again, a comma between two neighbours.\<close>

fun join_comma :: "string list \<Rightarrow> string" where
  "join_comma [] = []"
| "join_comma [p] = p"
| "join_comma (p # q # ps) = p @ CHR '','' # join_comma (q # ps)"

text \<open>
  A store in which every child reference points to an object further on in the store.
  The stores that \<open>treeConstructor\<close> builds are of this kind, and a store of this
  kind holds no cycle.
\<close>

definition forward_refs :: "BTreeNode list \<Rightarrow> bool" where
  "forward_refs h \<longleftrightarrow>
     (\<forall>a < length h. \<forall>c. leftChild (h ! a) = Some c \<or> rightChild (h ! a) = Some c
        \<longrightarrow> a < c \<and> c < length h)"

text \<open>The height of the subtree in a child slot: \<open>0\<close> for an empty slot.\<close>

definition subtree_height :: "nat \<Rightarrow> BTreeNode list \<Rightarrow> nat option \<Rightarrow> nat option" where
  "subtree_height k h child = (case child of None \<Rightarrow> Some 0 | Some c \<Rightarrow> getBTreeHeight k h c)"

text \<open>
  The child references held by a node, left before right, and those of a whole
  store, in the order of the store.
\<close>

definition children :: "BTreeNode \<Rightarrow> nat list" where
  "children n =
     (case leftChild n of None \<Rightarrow> [] | Some c \<Rightarrow> [c])
     @ (case rightChild n of None \<Rightarrow> [] | Some c \<Rightarrow> [c])"

definition child_refs :: "BTreeNode list \<Rightarrow> nat list" where
  "child_refs h = concat (map children h)"

text \<open>
  The invariant of the fill, between two iterations: the queue holds the nodes from
  some reference \<open>k\<close> on, none of which has a child yet, and the child references of
  the store are, in order, all the nodes but the root.
\<close>

definition fill_inv :: "builder \<Rightarrow> bool" where
  "fill_inv st \<longleftrightarrow>
     heap st \<noteq> []
     \<and> forward_refs (heap st)
     \<and> child_refs (heap st) = [1..<length (heap st)]
     \<and> (\<exists>k \<le> length (heap st). queue st = [k..<length (heap st)]
          \<and> (\<forall>a. k \<le> a \<and> a < length (heap st) \<longrightarrow> children (heap st ! a) = []))"

text \<open>The same within an iteration, \<open>node\<close> being the node taken from the queue.\<close>

definition mid_inv :: "nat \<Rightarrow> builder \<Rightarrow> bool" where
  "mid_inv node st \<longleftrightarrow>
     node < length (heap st)
     \<and> forward_refs (heap st)
     \<and> child_refs (heap st) = [1..<length (heap st)]
     \<and> queue st = [Suc node..<length (heap st)]
     \<and> (\<forall>a. node < a \<and> a < length (heap st) \<longrightarrow> children (heap st ! a) = [])"

text \<open>The value of the node in a child slot, \<^const>\<open>None\<close> for an empty slot.\<close>

definition child_value :: "BTreeNode list \<Rightarrow> nat option \<Rightarrow> jsval option" where
  "child_value h slot = map_option (\<lambda>c. node_value (h ! c)) slot"

text \<open>
  The number of nodes of the tree below a node: the node itself and the nodes of its
  two subtrees, an empty slot counting \<open>0\<close>.  The first argument bounds the depth of
  the recursion as it does for \<open>getBTreeHeight\<close>.
\<close>

fun count_nodes :: "nat \<Rightarrow> BTreeNode list \<Rightarrow> nat \<Rightarrow> nat option" where
  "count_nodes 0 h node = None"
| "count_nodes (Suc k) h node =
     do {
       l \<leftarrow> (case leftChild (h ! node) of None \<Rightarrow> Some 0 | Some c \<Rightarrow> count_nodes k h c);
       r \<leftarrow> (case rightChild (h ! node) of None \<Rightarrow> Some 0 | Some c \<Rightarrow> count_nodes k h c);
       Some (1 + l + r)
     }"


text \<open>The number of nodes behind a child slot.\<close>

definition subtree_count :: "nat \<Rightarrow> BTreeNode list \<Rightarrow> nat option \<Rightarrow> nat option" where
  "subtree_count k h slot = (case slot of None \<Rightarrow> Some 0 | Some c \<Rightarrow> count_nodes k h c)"




text \<open>The calls that a layout pass from \<open>w\<close> to \<open>w'\<close> added to the canvas.\<close>

definition new_calls :: "world \<Rightarrow> world \<Rightarrow> draw_call list" where
  "new_calls w w' = drop (length (calls w)) (calls w')"






text \<open>
  The parts of one call of \<open>recursivelyDrawNodes\<close>, as the source sequences them: the
  node itself, then the block of the left child, then the block of the right child;
  \<open>edge_y\<close> is the pair \<open>{yStart, yEnd}\<close> passed to \<open>connectEdges\<close> in both blocks.
\<close>

definition edge_y :: "rat \<Rightarrow> rat \<times> rat" where
  "edge_y currentLevel =
     (currentLevel * nodeHeightSpacing DEFAULT_NODE_CONFIG + radius DEFAULT_NODE_CONFIG,
      (currentLevel + 1) * nodeHeightSpacing DEFAULT_NODE_CONFIG - radius DEFAULT_NODE_CONFIG)"

definition draw_left :: "nat \<Rightarrow> nat \<Rightarrow> rat \<Rightarrow> rat \<Rightarrow> rat \<Rightarrow> world \<Rightarrow> world option" where
  "draw_left k a L xs xe w1 =
     (case leftChild (nodes w1 ! a) of
        None \<Rightarrow> Some w1
      | Some l \<Rightarrow> do {
          w' \<leftarrow> recursivelyDrawNodes k l (L + 1) (xs, (xs + xe) / 2) w1;
          Some (connectEdges ((xs + xe) / 2, (xs + (xs + xe) / 2) / 2) (edge_y L) w')
        })"

definition draw_right :: "nat \<Rightarrow> nat \<Rightarrow> rat \<Rightarrow> rat \<Rightarrow> rat \<Rightarrow> world \<Rightarrow> world option" where
  "draw_right k a L xs xe w2 =
     (case rightChild (nodes w2 ! a) of
        None \<Rightarrow> Some w2
      | Some r \<Rightarrow> do {
          w' \<leftarrow> recursivelyDrawNodes k r (L + 1) ((xs + xe) / 2, xe) w2;
          Some (connectEdges ((xs + xe) / 2, ((xs + xe) / 2 + xe) / 2) (edge_y L) w')
        })"

definition draw_self :: "nat \<Rightarrow> rat \<Rightarrow> rat \<Rightarrow> rat \<Rightarrow> world \<Rightarrow> world" where
  "draw_self a L xs xe w =
     drawNode (node_value (nodes w ! a)) ((xs + xe) / 2)
       (L * nodeHeightSpacing DEFAULT_NODE_CONFIG) w"

text \<open>What a run leaves as it was, and that it only adds calls.\<close>

definition extends :: "world \<Rightarrow> world \<Rightarrow> bool" where
  "extends w w' \<longleftrightarrow>
     nodes w' = nodes w \<and> canvas_width w' = canvas_width w
     \<and> canvas_height w' = canvas_height w
     \<and> calls w' = calls w @ new_calls w w'"


section \<open>The parser\<close>

lemma remove_spaces_filter:
  "remove_spaces acc s = acc @ filter (\<lambda>c. c \<noteq> CHR '' '') s"
  by (induction s arbitrary: acc) simp_all

lemma split_comma_not_Nil: "split_comma cur s \<noteq> []"
  by (induction s arbitrary: cur) simp_all

lemma join_comma_Cons: "ps \<noteq> [] \<Longrightarrow> join_comma (p # ps) = p @ CHR '','' # join_comma ps"
  by (cases ps) simp_all

lemma join_split_comma: "join_comma (split_comma cur s) = cur @ s"
  by (induction s arbitrary: cur) (simp_all add: join_comma_Cons split_comma_not_Nil)

lemma split_comma_no_comma:
  "CHR '','' \<notin> set cur \<Longrightarrow> \<forall>p \<in> set (split_comma cur s). CHR '','' \<notin> set p"
proof (induction s arbitrary: cur)
  case Nil
  then show ?case by simp
next
  case (Cons c cs)
  show ?case
  proof (cases "c = CHR '',''")
    case True
    then show ?thesis using Cons.IH [of "[]"] Cons.prems by simp
  next
    case False
    then show ?thesis using Cons.IH [of "cur @ [c]"] Cons.prems by simp
  qed
qed

text \<open>
  C7, as stated, fails: \<open>parseInput\<close> removes the space character only.  On the input
  \<open>1,<tab>2\<close> the tab stays in the second token, where a parser that strips all
  whitespace gives the token \<open>2\<close>.
\<close>

theorem parseInput_keeps_tab:
  "parseInput [CHR ''1'', CHR '','', CHR 0x09, CHR ''2'']
     = [Some ''1'', Some [CHR 0x09, CHR ''2'']]
   \<and> parseInput_all_whitespace [CHR ''1'', CHR '','', CHR 0x09, CHR ''2'']
     = [Some ''1'', Some ''2'']"
  by (simp add: parseInput_def parseInput_all_whitespace_def is_whitespace_def)

text \<open>
  C7, amended: for every input string, \<open>parseInput\<close> removes every space character
  (and no other character), splits the result on the comma into its ordered pieces
  (the pieces hold no comma, and joined with commas they give the stripped string
  back), maps every piece equal to \<open>"null"\<close> to the null sentinel and leaves every
  other piece unchanged as a string.
\<close>

theorem parseInput_removes_spaces:
  "(let stripped = filter (\<lambda>c. c \<noteq> CHR '' '') inputVal;
        pieces = split_comma [] stripped
    in join_comma pieces = stripped
       \<and> (\<forall>p \<in> set pieces. CHR '','' \<notin> set p)
       \<and> parseInput inputVal = map (\<lambda>e. if e = ''null'' then None else Some e) pieces)"
  using split_comma_no_comma [of "[]"]
  by (simp add: Let_def parseInput_def remove_spaces_filter join_split_comma)

theorem parseInput_removes_spaces_witness:
  "join_comma [''1'', ''null'', ''2''] = ''1,null,2''
   \<and> CHR '','' \<notin> set ''null''
   \<and> parseInput ''1, null ,2'' = [Some ''1'', None, Some ''2'']"
  using parseInput_removes_spaces [of "''1, null ,2''"]
  by (simp add: Let_def)

section \<open>The null sentinel in the fill\<close>

text \<open>
  C8: the input \<open>"1,null,2"\<close> gives a root valued \<open>"1"\<close> with an empty left slot and
  a right child valued \<open>"2"\<close> (the store holds these two nodes, the root at reference
  \<open>0\<close>); and in each of the two blocks of the loop a null token advances the token
  index and changes nothing else: no node is created or attached, the queue is as it
  was.
\<close>

theorem null_token_takes_a_slot:
  "treeConstructor ''1,null,2'' =
     ([\<lparr>node_value = Str ''1'', leftChild = None, rightChild = Some 1\<rparr>,
       \<lparr>node_value = Str ''2'', leftChild = None, rightChild = None\<rparr>], 0)
   \<and> (idx st < length newinput \<and> newinput ! idx st = None \<longrightarrow>
        left_block newinput node st = st\<lparr>idx := idx st + 1\<rparr>
        \<and> right_block newinput node st = st\<lparr>idx := idx st + 1\<rparr>)"
proof -
  have "treeConstructor ''1,null,2'' =
     ([\<lparr>node_value = Str ''1'', leftChild = None, rightChild = Some 1\<rparr>,
       \<lparr>node_value = Str ''2'', leftChild = None, rightChild = None\<rparr>], 0)"
    by code_simp
  moreover have "left_block newinput node st = st\<lparr>idx := idx st + 1\<rparr>"
    if "idx st < length newinput" "newinput ! idx st = None"
    using that by (simp add: left_block_def)
  moreover have "right_block newinput node st = st\<lparr>idx := idx st + 1\<rparr>"
    if "idx st < length newinput" "newinput ! idx st = None"
    using that by (simp add: right_block_def)
  ultimately show ?thesis by blast
qed

theorem null_token_takes_a_slot_witness:
  "left_block [Some ''1'', None, Some ''2''] 0
     \<lparr>heap = [\<lparr>node_value = Str ''1'', leftChild = None, rightChild = None\<rparr>],
      queue = [], idx = 1\<rparr>
   = \<lparr>heap = [\<lparr>node_value = Str ''1'', leftChild = None, rightChild = None\<rparr>],
      queue = [], idx = 2\<rparr>"
  using null_token_takes_a_slot
    [of "\<lparr>heap = [\<lparr>node_value = Str ''1'', leftChild = None, rightChild = None\<rparr>],
          queue = [], idx = 1\<rparr>" "[Some ''1'', None, Some ''2'']" 0]
  by simp

section \<open>The fill: invariant and termination\<close>

lemma set_children:
  "set (children n) = {c. leftChild n = Some c \<or> rightChild n = Some c}"
  by (auto simp: children_def split: option.splits)

lemma forward_refs_children:
  "forward_refs h \<longleftrightarrow> (\<forall>a < length h. \<forall>c \<in> set (children (h ! a)). a < c \<and> c < length h)"
  unfolding forward_refs_def set_children by blast

lemma children_Nil_iff: "children n = [] \<longleftrightarrow> leftChild n = None \<and> rightChild n = None"
  by (auto simp: children_def split: option.splits)

lemma child_refs_childless:
  "(\<forall>n \<in> set h. children n = []) \<Longrightarrow> child_refs h = []"
  by (simp add: child_refs_def)

lemma child_refs_append: "child_refs (h1 @ h2) = child_refs h1 @ child_refs h2"
  by (simp add: child_refs_def)

lemma child_refs_split:
  assumes "k < length h" and "\<forall>a. k < a \<and> a < length h \<longrightarrow> children (h ! a) = []"
  shows "child_refs (h[k := x]) = child_refs (take k h) @ children x"
proof -
  have "\<forall>n \<in> set (drop (Suc k) h). children n = []"
  proof
    fix n assume "n \<in> set (drop (Suc k) h)"
    then obtain i where "i < length (drop (Suc k) h)" "n = drop (Suc k) h ! i"
      by (metis in_set_conv_nth)
    then show "children n = []" using assms by simp
  qed
  then have "child_refs (drop (Suc k) h) = []" by (rule child_refs_childless)
  moreover have "h[k := x] = take k h @ x # drop (Suc k) h"
    using assms(1) by (rule upd_conv_take_nth_drop)
  ultimately show ?thesis by (simp add: child_refs_def)
qed

lemma child_refs_update:
  assumes "k < length h" and "\<forall>a. k < a \<and> a < length h \<longrightarrow> children (h ! a) = []"
    and "children x = children (h ! k) @ cs"
  shows "child_refs (h[k := x]) = child_refs h @ cs"
proof -
  have "child_refs (h[k := h ! k]) = child_refs (take k h) @ children (h ! k)"
    using assms(1,2) by (rule child_refs_split)
  then have "child_refs h = child_refs (take k h) @ children (h ! k)" by simp
  then show ?thesis using child_refs_split [OF assms(1,2), of x] assms(3) by simp
qed

lemma attach_child:
  assumes inv: "mid_inv node st"
    and x: "children x = children (heap st ! node) @ [length (heap st)]"
    and new: "children new = []"
  shows "mid_inv node (st\<lparr>heap := (heap st)[node := x] @ [new],
                         queue := queue st @ [length (heap st)]\<rparr>)"
proof -
  let ?h = "heap st" let ?n = "length (heap st)"
  let ?h' = "?h[node := x] @ [new]"
  from inv have node: "node < ?n" and fwd: "forward_refs ?h"
    and refs: "child_refs ?h = [1..<?n]" and q: "queue st = [Suc node..<?n]"
    and leaf: "\<forall>a. node < a \<and> a < ?n \<longrightarrow> children (?h ! a) = []"
    by (simp_all add: mid_inv_def)
  have F: "a < c \<and> c < ?n" if "a < ?n" "c \<in> set (children (?h ! a))" for a c
    using fwd that unfolding forward_refs_children by blast
  have nth_new: "?h' ! ?n = new" by (simp add: nth_append)
  have nth_node: "?h' ! node = x" using node by (simp add: nth_append)
  have nth_other: "?h' ! a = ?h ! a" if "a < ?n" "a \<noteq> node" for a
    using that by (simp add: nth_append)
  have len: "length ?h' = Suc ?n" by simp
  have "forward_refs ?h'"
    unfolding forward_refs_children
  proof (intro allI impI ballI)
    fix a c assume a: "a < length ?h'" and c: "c \<in> set (children (?h' ! a))"
    from a have a': "a \<le> ?n" by simp
    consider "a = ?n" | "a = node" | "a < ?n" "a \<noteq> node"
      using a' by linarith
    then show "a < c \<and> c < length ?h'"
    proof cases
      case 1
      then show ?thesis using c nth_new new by simp
    next
      case 2
      then have "c = ?n \<or> c \<in> set (children (?h ! node))"
        using c nth_node x by simp
      then show ?thesis
      proof
        assume "c = ?n"
        then show ?thesis using 2 node len by simp
      next
        assume "c \<in> set (children (?h ! node))"
        from F [OF node this] show ?thesis using 2 len by simp
      qed
    next
      case 3
      then have "c \<in> set (children (?h ! a))"
        using c nth_other by simp
      from F [OF 3(1) this] show ?thesis using len by simp
    qed
  qed
  moreover have "child_refs ?h' = [1..<length ?h']"
  proof -
    have "child_refs (?h[node := x]) = child_refs ?h @ [?n]"
      using node leaf x by (rule child_refs_update)
    then have "child_refs ?h' = [1..<?n] @ [?n]"
      using refs new by (simp add: child_refs_append child_refs_def)
    also have "\<dots> = [1..<Suc ?n]" using node by simp
    finally show ?thesis by simp
  qed
  moreover have "queue st @ [?n] = [Suc node..<length ?h']"
    using q node by simp
  moreover have "\<forall>a. node < a \<and> a < length ?h' \<longrightarrow> children (?h' ! a) = []"
  proof (intro allI impI)
    fix a assume a: "node < a \<and> a < length ?h'"
    then consider "a = ?n" | "a < ?n" "a \<noteq> node" using len by linarith
    then show "children (?h' ! a) = []"
    proof cases
      case 1
      then show ?thesis using nth_new new by simp
    next
      case 2
      then show ?thesis using nth_other [OF 2] leaf a by simp
    qed
  qed
  ultimately show ?thesis using node by (simp add: mid_inv_def)
qed

lemma mid_inv_idx: "mid_inv node (st\<lparr>idx := i\<rparr>) = mid_inv node st"
  by (simp add: mid_inv_def)

lemma left_block_inv:
  assumes "mid_inv node st" and "children (heap st ! node) = []"
  shows "mid_inv node (left_block newinput node st)
         \<and> rightChild (heap (left_block newinput node st) ! node) = None"
proof (cases "idx st < length newinput")
  case False
  then show ?thesis using assms by (simp add: left_block_def children_Nil_iff)
next
  case True
  show ?thesis
  proof (cases "newinput ! idx st")
    case None
    then show ?thesis using True assms by (simp add: left_block_def mid_inv_idx children_Nil_iff)
  next
    case (Some v)
    let ?h = "heap st"
    let ?new = "\<lparr>node_value = Str v, leftChild = None, rightChild = None\<rparr>"
    let ?x = "(?h ! node)\<lparr>leftChild := Some (length ?h)\<rparr>"
    from assms(1) have node: "node < length ?h" by (simp add: mid_inv_def)
    have h': "setLeftChild node (Some (length ?h)) (?h @ [?new]) = ?h[node := ?x] @ [?new]"
      using node by (simp add: setLeftChild_def list_update_append1 nth_append)
    have "children ?x = children (?h ! node) @ [length ?h]"
      using assms(2) by (simp add: children_def children_Nil_iff)
    moreover have "children ?new = []" by (simp add: children_def)
    ultimately have "mid_inv node (st\<lparr>heap := ?h[node := ?x] @ [?new],
                         queue := queue st @ [length ?h]\<rparr>)"
      using attach_child [OF assms(1)] by blast
    moreover have "rightChild ((?h[node := ?x] @ [?new]) ! node) = None"
      using node assms(2) by (simp add: nth_append children_Nil_iff)
    ultimately show ?thesis
      using True Some h' by (simp add: left_block_def new_BTreeNode_def mid_inv_idx)
  qed
qed

lemma right_block_inv:
  assumes "mid_inv node st" and "rightChild (heap st ! node) = None"
  shows "mid_inv node (right_block newinput node st)"
proof (cases "idx st < length newinput")
  case False
  then show ?thesis using assms by (simp add: right_block_def)
next
  case True
  show ?thesis
  proof (cases "newinput ! idx st")
    case None
    then show ?thesis using True assms by (simp add: right_block_def mid_inv_idx)
  next
    case (Some v)
    let ?h = "heap st"
    let ?new = "\<lparr>node_value = Str v, leftChild = None, rightChild = None\<rparr>"
    let ?x = "(?h ! node)\<lparr>rightChild := Some (length ?h)\<rparr>"
    from assms(1) have node: "node < length ?h" by (simp add: mid_inv_def)
    have h': "setRightChild node (Some (length ?h)) (?h @ [?new]) = ?h[node := ?x] @ [?new]"
      using node by (simp add: setRightChild_def list_update_append1 nth_append)
    have "children ?x = children (?h ! node) @ [length ?h]"
      using assms(2) by (simp add: children_def)
    moreover have "children ?new = []" by (simp add: children_def)
    ultimately have "mid_inv node (st\<lparr>heap := ?h[node := ?x] @ [?new],
                         queue := queue st @ [length ?h]\<rparr>)"
      using attach_child [OF assms(1)] by blast
    then show ?thesis
      using True Some h' by (simp add: right_block_def new_BTreeNode_def mid_inv_idx)
  qed
qed

lemma loop_body_inv:
  assumes "fill_inv st" and "loop_cond newinput st"
  shows "fill_inv (loop_body newinput st)"
proof -
  let ?n = "length (heap st)"
  from assms(1) obtain k where k: "k \<le> ?n" and q: "queue st = [k..<?n]"
    and leaf: "\<forall>a. k \<le> a \<and> a < ?n \<longrightarrow> children (heap st ! a) = []"
    and fwd: "forward_refs (heap st)" and refs: "child_refs (heap st) = [1..<?n]"
    unfolding fill_inv_def by blast
  from assms(2) q have kn: "k < ?n" by (auto simp: loop_cond_def)
  then have hd: "hd (queue st) = k" and tl: "tl (queue st) = [Suc k..<?n]"
    using q by (simp_all add: upt_conv_Cons)
  let ?st1 = "st\<lparr>queue := tl (queue st)\<rparr>"
  have m1: "mid_inv k ?st1"
    using kn fwd refs tl leaf by (simp add: mid_inv_def)
  have "children (heap ?st1 ! k) = []" using leaf kn by simp
  from left_block_inv [OF m1 this, of newinput]
  have "mid_inv k (right_block newinput k (left_block newinput k ?st1))"
    using right_block_inv by blast
  then have m3: "mid_inv k (loop_body newinput st)"
    by (simp add: loop_body_def Let_def hd)
  let ?st3 = "loop_body newinput st"
  from m3 have "Suc k \<le> length (heap ?st3)" "queue ?st3 = [Suc k..<length (heap ?st3)]"
    "\<forall>a. Suc k \<le> a \<and> a < length (heap ?st3) \<longrightarrow> children (heap ?st3 ! a) = []"
    "heap ?st3 \<noteq> []" "forward_refs (heap ?st3)" "child_refs (heap ?st3) = [1..<length (heap ?st3)]"
    by (auto simp: mid_inv_def)
  then show ?thesis unfolding fill_inv_def by blast
qed

lemma fill_loop_invariant:
  assumes "P st" and "\<And>s. P s \<Longrightarrow> loop_cond newinput s \<Longrightarrow> P (loop_body newinput s)"
  shows "P (fill_loop newinput st)"
  using assms
proof (induction newinput st rule: fill_loop.induct)
  case (1 newinput st)
  show ?case
  proof (cases "loop_cond newinput st")
    case True
    then have "P (loop_body newinput st)" using "1.prems" by blast
    then have "P (fill_loop newinput (loop_body newinput st))"
      using "1.IH" [OF True] "1.prems"(2) by blast
    then show ?thesis using True by (simp add: fill_loop.simps [of newinput st])
  next
    case False
    then show ?thesis using "1.prems" by (simp add: fill_loop.simps [of newinput st])
  qed
qed

lemma fill_inv_initial:
  "fill_inv \<lparr>heap = [\<lparr>node_value = v, leftChild = None, rightChild = None\<rparr>], queue = [0], idx = i\<rparr>"
  unfolding fill_inv_def
  by (auto simp: forward_refs_def child_refs_def children_def intro!: exI [of _ 0])

lemma treeConstructor_run_inv: "fill_inv (treeConstructor_run input)"
  unfolding treeConstructor_run_def Let_def new_BTreeNode_def
  by (simp add: fill_loop_invariant [where P = fill_inv] fill_inv_initial loop_body_inv)

lemma treeConstructor_eq:
  "treeConstructor input = (heap (treeConstructor_run input), 0)"
  by (simp add: treeConstructor_def new_BTreeNode_def)

lemma treeConstructor_forward_refs: "forward_refs (fst (treeConstructor input))"
  using treeConstructor_run_inv [of input] by (simp add: treeConstructor_eq fill_inv_def)

lemma treeConstructor_root_valid:
  "snd (treeConstructor input) < length (fst (treeConstructor input))"
  using treeConstructor_run_inv [of input] by (simp add: treeConstructor_eq fill_inv_def)

lemma fill_loop_iterates:
  "\<exists>n. n \<le> length newinput - idx st
      \<and> fill_loop newinput st = (loop_body newinput ^^ n) st
      \<and> \<not> loop_cond newinput ((loop_body newinput ^^ n) st)
      \<and> (\<forall>j<n. loop_cond newinput ((loop_body newinput ^^ j) st)
            \<and> idx ((loop_body newinput ^^ j) st) < idx ((loop_body newinput ^^ Suc j) st))"
proof (induction newinput st rule: fill_loop.induct)
  case (1 newinput st)
  let ?f = "loop_body newinput"
  show ?case
  proof (cases "loop_cond newinput st")
    case False
    then have "fill_loop newinput st = st" by (simp add: fill_loop.simps [of newinput st])
    then show ?thesis using False by (intro exI [of _ 0]) simp
  next
    case True
    from "1.IH" [OF True] obtain n where
      n: "n \<le> length newinput - idx (?f st)"
      and eq: "fill_loop newinput (?f st) = (?f ^^ n) (?f st)"
      and stop: "\<not> loop_cond newinput ((?f ^^ n) (?f st))"
      and run: "\<forall>j<n. loop_cond newinput ((?f ^^ j) (?f st))
            \<and> idx ((?f ^^ j) (?f st)) < idx ((?f ^^ Suc j) (?f st))"
      by blast
    have shift: "(?f ^^ Suc j) st = (?f ^^ j) (?f st)" for j
      by (simp add: funpow_swap1)
    have less: "idx st < idx (?f st)" using True by (rule idx_loop_body_less)
    have lt: "idx st < length newinput" using True by (simp add: loop_cond_def)
    have "Suc n \<le> length newinput - idx st" using n less lt by linarith
    moreover have "fill_loop newinput st = (?f ^^ Suc n) st"
      using True eq by (simp add: fill_loop.simps [of newinput st] shift del: funpow.simps)
    moreover have "\<not> loop_cond newinput ((?f ^^ Suc n) st)"
      using stop by (simp add: shift del: funpow.simps)
    moreover have "\<forall>j<Suc n. loop_cond newinput ((?f ^^ j) st)
            \<and> idx ((?f ^^ j) st) < idx ((?f ^^ Suc j) st)"
    proof (intro allI impI)
      fix j assume j: "j < Suc n"
      show "loop_cond newinput ((?f ^^ j) st) \<and> idx ((?f ^^ j) st) < idx ((?f ^^ Suc j) st)"
      proof (cases j)
        case 0
        then show ?thesis using True less by simp
      next
        case (Suc j')
        then have "j' < n" using j by simp
        then show ?thesis using run Suc by (simp add: shift del: funpow.simps)
      qed
    qed
    ultimately show ?thesis by blast
  qed
qed


text \<open>
  C10: for every input string \<open>treeConstructor\<close> terminates.  The loop is the \<open>n\<close>-fold
  iteration of its body on the initial state for some \<open>n\<close> not above the number of
  parsed tokens, it stops there, every iteration before is one in which the loop
  condition holds and the token index strictly grows (as it does in any state in
  which the condition holds), and the reference returned is that of a node of the
  store returned.
\<close>

theorem treeConstructor_terminates:
  "(\<exists>n \<le> length (parseInput input).
      (let newinput = parseInput input;
           st0 = \<lparr>heap = [\<lparr>node_value = char_at input 0, leftChild = None, rightChild = None\<rparr>],
                  queue = [0], idx = 1\<rparr>
       in treeConstructor_run input = (loop_body newinput ^^ n) st0
          \<and> \<not> loop_cond newinput ((loop_body newinput ^^ n) st0)
          \<and> (\<forall>j<n. loop_cond newinput ((loop_body newinput ^^ j) st0)
                \<and> idx ((loop_body newinput ^^ j) st0)
                    < idx ((loop_body newinput ^^ Suc j) st0))))
   \<and> (loop_cond newinput st \<longrightarrow> idx st < idx (loop_body newinput st))
   \<and> fst (treeConstructor input) = heap (treeConstructor_run input)
   \<and> snd (treeConstructor input) < length (fst (treeConstructor input))"
proof -
  let ?toks = "parseInput input"
  let ?st0 = "\<lparr>heap = [\<lparr>node_value = char_at input 0, leftChild = None, rightChild = None\<rparr>],
                  queue = [0], idx = 1\<rparr>"
  from fill_loop_iterates [of ?toks ?st0] obtain n where
    n: "n \<le> length ?toks - idx ?st0"
    and rest: "fill_loop ?toks ?st0 = (loop_body ?toks ^^ n) ?st0"
      "\<not> loop_cond ?toks ((loop_body ?toks ^^ n) ?st0)"
      "\<forall>j<n. loop_cond ?toks ((loop_body ?toks ^^ j) ?st0)
            \<and> idx ((loop_body ?toks ^^ j) ?st0) < idx ((loop_body ?toks ^^ Suc j) ?st0)"
    by blast
  have run: "treeConstructor_run input = fill_loop ?toks ?st0"
    by (simp add: treeConstructor_run_def new_BTreeNode_def)
  have "n \<le> length ?toks" using n by simp
  then have "\<exists>n \<le> length ?toks.
      (let newinput = ?toks; st0 = ?st0
       in treeConstructor_run input = (loop_body newinput ^^ n) st0
          \<and> \<not> loop_cond newinput ((loop_body newinput ^^ n) st0)
          \<and> (\<forall>j<n. loop_cond newinput ((loop_body newinput ^^ j) st0)
                \<and> idx ((loop_body newinput ^^ j) st0)
                    < idx ((loop_body newinput ^^ Suc j) st0)))"
    using rest unfolding run Let_def by blast
  then show ?thesis
    using idx_loop_body_less [of newinput st] treeConstructor_root_valid [of input]
    by (simp add: treeConstructor_eq)
qed

theorem treeConstructor_terminates_witness:
  "(\<exists>n\<le>3. treeConstructor_run ''1,null,2'' =
       (loop_body [Some ''1'', None, Some ''2''] ^^ n)
         \<lparr>heap = [\<lparr>node_value = Str ''1'', leftChild = None, rightChild = None\<rparr>],
          queue = [0], idx = 1\<rparr>)
   \<and> loop_cond [Some ''1'', None, Some ''2'']
         \<lparr>heap = [\<lparr>node_value = Str ''1'', leftChild = None, rightChild = None\<rparr>],
          queue = [0], idx = 1\<rparr>
   \<and> 1 < idx (loop_body [Some ''1'', None, Some ''2'']
         \<lparr>heap = [\<lparr>node_value = Str ''1'', leftChild = None, rightChild = None\<rparr>],
          queue = [0], idx = 1\<rparr>)"
proof -
  let ?st0 = "\<lparr>heap = [\<lparr>node_value = Str ''1'', leftChild = None, rightChild = None\<rparr>],
          queue = [0], idx = 1\<rparr>"
  have p: "parseInput ''1,null,2'' = [Some ''1'', None, Some ''2'']" by code_simp
  have c: "char_at ''1,null,2'' 0 = Str ''1''" by code_simp
  have l: "loop_cond [Some ''1'', None, Some ''2''] ?st0" by (simp add: loop_cond_def)
  note t = treeConstructor_terminates
    [where input = "''1,null,2''" and newinput = "[Some ''1'', None, Some ''2'']" and st = ?st0,
     unfolded p c Let_def]
  from t obtain n where n: "n \<le> length [Some ''1'', None, Some ''2'']"
    and r: "treeConstructor_run ''1,null,2'' = (loop_body [Some ''1'', None, Some ''2''] ^^ n) ?st0"
    by blast
  from n have "n \<le> 3" by simp
  with r have "\<exists>n\<le>3. treeConstructor_run ''1,null,2'' =
       (loop_body [Some ''1'', None, Some ''2''] ^^ n) ?st0"
    by blast
  moreover have "1 < idx (loop_body [Some ''1'', None, Some ''2''] ?st0)"
    using t l by simp
  ultimately show ?thesis using l by blast
qed

section \<open>The root and its two slots\<close>

lemma left_block_frame:
  assumes "a < length (heap st)"
  shows "a < length (heap (left_block newinput node st))"
    and "node_value (heap (left_block newinput node st) ! a) = node_value (heap st ! a)"
    and "a \<noteq> node \<Longrightarrow> heap (left_block newinput node st) ! a = heap st ! a"
    and "a \<notin> set (queue st) \<Longrightarrow> a \<notin> set (queue (left_block newinput node st))"
  using assms
  by (auto simp: left_block_def new_BTreeNode_def setLeftChild_def Let_def nth_append
        nth_list_update split: option.split)

lemma right_block_frame:
  assumes "a < length (heap st)"
  shows "a < length (heap (right_block newinput node st))"
    and "node_value (heap (right_block newinput node st) ! a) = node_value (heap st ! a)"
    and "a \<noteq> node \<Longrightarrow> heap (right_block newinput node st) ! a = heap st ! a"
    and "a \<notin> set (queue st) \<Longrightarrow> a \<notin> set (queue (right_block newinput node st))"
  using assms
  by (auto simp: right_block_def new_BTreeNode_def setRightChild_def Let_def nth_append
        nth_list_update split: option.split)

lemma left_block_slot:
  assumes "node < length (heap st)" and "leftChild (heap st ! node) = None"
  shows "child_value (heap (left_block newinput node st))
           (leftChild (heap (left_block newinput node st) ! node))
         = (if idx st < length newinput then map_option Str (newinput ! idx st) else None)"
    and "rightChild (heap (left_block newinput node st) ! node) = rightChild (heap st ! node)"
    and "idx (left_block newinput node st)
         = (if idx st < length newinput then idx st + 1 else idx st)"
  using assms
  by (auto simp: left_block_def new_BTreeNode_def setLeftChild_def Let_def nth_append
        child_value_def split: option.split)

lemma left_block_child_valid:
  assumes "node < length (heap st)" and "leftChild (heap st ! node) = None"
    and "leftChild (heap (left_block newinput node st) ! node) = Some c"
  shows "c < length (heap (left_block newinput node st))"
proof (cases "idx st < length newinput")
  case False
  then show ?thesis using assms by (simp add: left_block_def)
next
  case True
  show ?thesis
  proof (cases "newinput ! idx st")
    case None
    then show ?thesis using True assms by (simp add: left_block_def)
  next
    case (Some v)
    then show ?thesis
      using True assms
      by (simp add: left_block_def new_BTreeNode_def setLeftChild_def nth_append)
  qed
qed

lemma right_block_slot:
  assumes "node < length (heap st)" and "rightChild (heap st ! node) = None"
  shows "child_value (heap (right_block newinput node st))
           (rightChild (heap (right_block newinput node st) ! node))
         = (if idx st < length newinput then map_option Str (newinput ! idx st) else None)"
    and "leftChild (heap (right_block newinput node st) ! node) = leftChild (heap st ! node)"
  using assms
  by (auto simp: right_block_def new_BTreeNode_def setRightChild_def Let_def nth_append
        child_value_def split: option.split)

lemma loop_body_frame:
  assumes "loop_cond newinput st" and "a < length (heap st)"
  shows "a < length (heap (loop_body newinput st))"
    and "node_value (heap (loop_body newinput st) ! a) = node_value (heap st ! a)"
    and "a \<notin> set (queue st) \<Longrightarrow> heap (loop_body newinput st) ! a = heap st ! a"
    and "a \<notin> set (queue st) \<Longrightarrow> a \<notin> set (queue (loop_body newinput st))"
proof -
  let ?node = "hd (queue st)"
  let ?st1 = "st\<lparr>queue := tl (queue st)\<rparr>"
  let ?sl = "left_block newinput ?node ?st1"
  have body: "loop_body newinput st = right_block newinput ?node ?sl"
    by (simp add: loop_body_def Let_def)
  have a1: "a < length (heap ?st1)" using assms(2) by simp
  note l = left_block_frame [OF a1, where newinput = newinput and node = ?node]
  note r = right_block_frame [OF l(1), where newinput = newinput and node = ?node]
  show "a < length (heap (loop_body newinput st))" unfolding body by (rule r(1))
  show "node_value (heap (loop_body newinput st) ! a) = node_value (heap st ! a)"
    unfolding body using r(2) l(2) by simp
  have ne: "queue st \<noteq> []" using assms(1) by (simp add: loop_cond_def)
  {
    assume nq: "a \<notin> set (queue st)"
    then have "a \<noteq> ?node" using ne hd_in_set by metis
    then show "heap (loop_body newinput st) ! a = heap st ! a"
      unfolding body using r(3) l(3) by simp
    have "set (tl (queue st)) \<subseteq> set (queue st)" using ne by (auto dest: list.set_sel(2))
    then have "a \<notin> set (queue ?st1)" using nq by auto
    then show "a \<notin> set (queue (loop_body newinput st))"
      unfolding body using r(4) l(4) by simp
  }
qed


lemma fill_loop_frame:
  assumes "a < length (heap st)" and "a \<notin> set (queue st)"
  shows "heap (fill_loop newinput st) ! a = heap st ! a"
proof -
  let ?P = "\<lambda>s. a < length (heap s) \<and> a \<notin> set (queue s) \<and> heap s ! a = heap st ! a"
  have "?P (fill_loop newinput st)"
  proof (rule fill_loop_invariant)
    show "?P st" using assms by simp
  next
    fix s assume "?P s" and "loop_cond newinput s"
    then show "?P (loop_body newinput s)"
      using loop_body_frame [of newinput s a] by simp
  qed
  then show ?thesis by simp
qed

lemma fill_loop_values:
  assumes "a < length (heap st)"
  shows "node_value (heap (fill_loop newinput st) ! a) = node_value (heap st ! a)"
proof -
  let ?P = "\<lambda>s. a < length (heap s) \<and> node_value (heap s ! a) = node_value (heap st ! a)"
  have "?P (fill_loop newinput st)"
  proof (rule fill_loop_invariant)
    show "?P st" using assms by simp
  next
    fix s assume "?P s" and "loop_cond newinput s"
    then show "?P (loop_body newinput s)"
      using loop_body_frame(1,2) [of newinput s a] by simp
  qed
  then show ?thesis by simp
qed

lemma child_value_fill_loop:
  assumes "fill_inv st" and "a < length (heap st)" and "a \<notin> set (queue st)"
  shows "child_value (heap (fill_loop newinput st)) (leftChild (heap (fill_loop newinput st) ! a))
           = child_value (heap st) (leftChild (heap st ! a))"
    and "child_value (heap (fill_loop newinput st)) (rightChild (heap (fill_loop newinput st) ! a))
           = child_value (heap st) (rightChild (heap st ! a))"
proof -
  have same: "heap (fill_loop newinput st) ! a = heap st ! a"
    using assms(2,3) by (rule fill_loop_frame)
  have valid: "c < length (heap st)"
    if "leftChild (heap st ! a) = Some c \<or> rightChild (heap st ! a) = Some c" for c
    using assms(1,2) that unfolding fill_inv_def forward_refs_def by blast
  have v: "child_value (heap (fill_loop newinput st)) slot = child_value (heap st) slot"
    if "slot = leftChild (heap st ! a) \<or> slot = rightChild (heap st ! a)" for slot
  proof (cases slot)
    case None
    then show ?thesis by (simp add: child_value_def)
  next
    case (Some c)
    then have "c < length (heap st)" using that valid by metis
    then show ?thesis using Some by (simp add: child_value_def fill_loop_values)
  qed
  show "child_value (heap (fill_loop newinput st)) (leftChild (heap (fill_loop newinput st) ! a))
           = child_value (heap st) (leftChild (heap st ! a))"
    unfolding same by (rule v) simp
  show "child_value (heap (fill_loop newinput st)) (rightChild (heap (fill_loop newinput st) ! a))
           = child_value (heap st) (rightChild (heap st ! a))"
    unfolding same by (rule v) simp
qed

text \<open>
  C1: for every input string with at least one character the root returned by
  \<open>treeConstructor\<close> holds the first character of the raw input (for \<open>"12,3"\<close> the root
  holds \<open>"1"\<close>, where the first parsed token is \<open>"12"\<close>), while the fill starts at index
  \<open>1\<close> of the parsed tokens: the left slot of the root is filled from the token at
  index \<open>1\<close> and the right slot from the token at index \<open>2\<close> (a slot is empty when its
  token is the null sentinel or there is no such token).
\<close>

theorem root_is_first_raw_character:
  assumes "input \<noteq> []"
  shows "(let (h, r) = treeConstructor input; newinput = parseInput input
          in node_value (h ! r) = Str [hd input]
             \<and> child_value h (leftChild (h ! r))
                 = (if 1 < length newinput then map_option Str (newinput ! 1) else None)
             \<and> child_value h (rightChild (h ! r))
                 = (if 2 < length newinput then map_option Str (newinput ! 2) else None))
         \<and> node_value (fst (treeConstructor ''12,3'') ! snd (treeConstructor ''12,3'')) = Str ''1''
         \<and> parseInput ''12,3'' = [Some ''12'', Some ''3'']"
proof -
  let ?toks = "parseInput input"
  let ?root = "\<lparr>node_value = char_at input 0, leftChild = None, rightChild = None\<rparr>"
  let ?st0 = "\<lparr>heap = [?root], queue = [0], idx = 1\<rparr>"
  let ?fin = "fill_loop ?toks ?st0"
  have run: "treeConstructor_run input = ?fin"
    by (simp add: treeConstructor_run_def new_BTreeNode_def)
  have c0: "char_at input 0 = Str [hd input]"
    using assms by (cases input) (simp_all add: char_at_def)
  have val: "node_value (heap ?fin ! 0) = Str [hd input]"
    using fill_loop_values [of 0 ?st0 ?toks] c0 by simp
  have slots: "child_value (heap ?fin) (leftChild (heap ?fin ! 0))
                 = (if 1 < length ?toks then map_option Str (?toks ! 1) else None)
             \<and> child_value (heap ?fin) (rightChild (heap ?fin ! 0))
                 = (if 2 < length ?toks then map_option Str (?toks ! 2) else None)"
  proof (cases "loop_cond ?toks ?st0")
    case False
    then have "?fin = ?st0" by (subst fill_loop.simps) simp
    moreover from False have "\<not> 1 < length ?toks" by (simp add: loop_cond_def)
    ultimately show ?thesis by (simp add: child_value_def)
  next
    case True
    then have len: "1 < length ?toks" by (simp add: loop_cond_def)
    let ?s = "?st0\<lparr>queue := tl (queue ?st0)\<rparr>"
    let ?sl = "left_block ?toks 0 ?s"
    let ?st1 = "right_block ?toks 0 ?sl"
    have body: "loop_body ?toks ?st0 = ?st1" by (simp add: loop_body_def Let_def)
    have fin: "?fin = fill_loop ?toks ?st1"
      using True body by (subst fill_loop.simps) simp
    have s0: "0 < length (heap ?s)" "leftChild (heap ?s ! 0) = None"
      "rightChild (heap ?s ! 0) = None" "idx ?s = 1" "0 \<notin> set (queue ?s)"
      by simp_all
    note l = left_block_slot [OF s0(1,2), where newinput = ?toks]
    note lf = left_block_frame [OF s0(1), where newinput = ?toks and node = 0]
    have lr: "rightChild (heap ?sl ! 0) = None" using l(2) s0(3) by simp
    have li: "idx ?sl = 2" using l(3) len by simp
    note r = right_block_slot [OF lf(1) lr, where newinput = ?toks]
    note rf = right_block_frame [OF lf(1), where newinput = ?toks and node = 0]
    have inv1: "fill_inv ?st1"
      using loop_body_inv [OF fill_inv_initial True] body by simp
    have nq: "0 \<notin> set (queue ?st1)" using rf(4) lf(4) s0(5) by blast
    have left1: "child_value (heap ?st1) (leftChild (heap ?st1 ! 0))
                  = map_option Str (?toks ! 1)"
    proof -
      have "leftChild (heap ?st1 ! 0) = leftChild (heap ?sl ! 0)" by (rule r(2))
      moreover have "child_value (heap ?st1) slot = child_value (heap ?sl) slot"
        if "slot = leftChild (heap ?sl ! 0)" for slot
      proof (cases slot)
        case None
        then show ?thesis by (simp add: child_value_def)
      next
        case (Some c)
        have "c < length (heap ?sl)"
          using left_block_child_valid [OF s0(1,2), of ?toks c] Some that by simp
        then show ?thesis
          using Some right_block_frame(2) [of c ?sl ?toks 0] by (simp add: child_value_def)
      qed
      ultimately show ?thesis using l(1) len s0(4) by simp
    qed
    have right1: "child_value (heap ?st1) (rightChild (heap ?st1 ! 0))
                  = (if 2 < length ?toks then map_option Str (?toks ! 2) else None)"
      using r(1) li by simp
    show ?thesis
      unfolding fin
      using child_value_fill_loop [OF inv1 rf(1) nq, of ?toks] left1 right1 len by simp
  qed
  have ex: "treeConstructor ''12,3'' =
     ([\<lparr>node_value = Str ''1'', leftChild = Some 1, rightChild = None\<rparr>,
       \<lparr>node_value = Str ''3'', leftChild = None, rightChild = None\<rparr>], 0)"
    by code_simp
  have ex2: "parseInput ''12,3'' = [Some ''12'', Some ''3'']" by code_simp
  show ?thesis
    using val slots ex2 unfolding ex by (simp add: treeConstructor_eq run Let_def)
qed

theorem root_is_first_raw_character_witness:
  "''10,3,8'' \<noteq> []
   \<and> (let (h, r) = treeConstructor ''10,3,8''
      in node_value (h ! r) = Str ''1''
         \<and> child_value h (leftChild (h ! r)) = Some (Str ''3'')
         \<and> child_value h (rightChild (h ! r)) = Some (Str ''8''))"
proof -
  have p: "parseInput ''10,3,8'' = [Some ''10'', Some ''3'', Some ''8'']" by code_simp
  show ?thesis
    using root_is_first_raw_character [of "''10,3,8''"]
    by (simp add: p Let_def split_beta)
qed

section \<open>The number of nodes\<close>

lemma count_nodes_Suc:
  "count_nodes (Suc k) h node = Some n \<longleftrightarrow>
     (\<exists>l r. subtree_count k h (leftChild (h ! node)) = Some l
          \<and> subtree_count k h (rightChild (h ! node)) = Some r
          \<and> n = 1 + l + r)"
  by (auto simp: bind_eq_Some_conv subtree_count_def)

declare count_nodes.simps(2) [simp del]

lemma count_nodes_mono_Suc:
  "count_nodes k h node = Some n \<Longrightarrow> count_nodes (Suc k) h node = Some n"
proof (induction k arbitrary: node n)
  case 0
  then show ?case by simp
next
  case (Suc k)
  have up: "subtree_count (Suc k) h slot = Some m" if "subtree_count k h slot = Some m" for slot m
    using that Suc.IH by (cases slot) (simp_all add: subtree_count_def)
  from Suc.prems show ?case
    unfolding count_nodes_Suc [of "Suc k"] count_nodes_Suc [of k] using up by blast
qed

lemma count_nodes_mono:
  assumes "count_nodes k h node = Some n" and "k \<le> k'"
  shows "count_nodes k' h node = Some n"
proof -
  have "count_nodes (k + d) h node = Some n" for d
    by (induction d) (simp_all add: assms(1) count_nodes_mono_Suc)
  then show ?thesis using assms(2) le_Suc_ex by blast
qed
















section \<open>Height and canvas size: properties\<close>

lemma optional_call_Some:
  "optional_call m obj = Some v \<longleftrightarrow>
     (obj = None \<and> v = None) \<or> (\<exists>c n. obj = Some c \<and> m c = Some n \<and> v = Some n)"
  by (cases obj) (auto simp: optional_call_def)

lemma getBTreeHeight_Suc:
  "getBTreeHeight (Suc k) h this = Some n \<longleftrightarrow>
     (\<exists>l r. optional_call (getBTreeHeight k h) (leftChild (h ! this)) = Some l
          \<and> optional_call (getBTreeHeight k h) (rightChild (h ! this)) = Some r
          \<and> n = max (or_zero l) (or_zero r) + 1)"
  by (auto simp: bind_eq_Some_conv Let_def)

declare getBTreeHeight.simps(2) [simp del]

lemma getBTreeHeight_pos: "getBTreeHeight k h this = Some n \<Longrightarrow> 1 \<le> n"
  by (cases k) (auto simp: getBTreeHeight_Suc)

lemma getBTreeHeight_mono_Suc:
  "getBTreeHeight k h this = Some n \<Longrightarrow> getBTreeHeight (Suc k) h this = Some n"
proof (induction k arbitrary: this n)
  case 0
  then show ?case by simp
next
  case (Suc k)
  from Suc.prems obtain l r where
    l: "optional_call (getBTreeHeight k h) (leftChild (h ! this)) = Some l" and
    r: "optional_call (getBTreeHeight k h) (rightChild (h ! this)) = Some r" and
    n: "n = max (or_zero l) (or_zero r) + 1"
    unfolding getBTreeHeight_Suc by blast
  have "optional_call (getBTreeHeight (Suc k) h) (leftChild (h ! this)) = Some l"
    using l Suc.IH unfolding optional_call_Some by blast
  moreover have "optional_call (getBTreeHeight (Suc k) h) (rightChild (h ! this)) = Some r"
    using r Suc.IH unfolding optional_call_Some by blast
  ultimately show ?case
    using n unfolding getBTreeHeight_Suc [of "Suc k"] by blast
qed

lemma getBTreeHeight_mono:
  "getBTreeHeight k h this = Some n \<Longrightarrow> k \<le> k' \<Longrightarrow> getBTreeHeight k' h this = Some n"
proof -
  assume a: "getBTreeHeight k h this = Some n" and "k \<le> k'"
  have "getBTreeHeight (k + d) h this = Some n" for d
    by (induction d) (simp_all add: a getBTreeHeight_mono_Suc)
  then show ?thesis using \<open>k \<le> k'\<close> le_Suc_ex by blast
qed

lemma or_zero_height:
  "optional_call (getBTreeHeight k h) child = Some v \<Longrightarrow>
     subtree_height k h child = Some (or_zero v)"
  by (cases child) (auto simp: optional_call_def subtree_height_def or_zero_def)

lemma getBTreeHeight_returns:
  "forward_refs h \<Longrightarrow> this < length h \<Longrightarrow> length h - this \<le> k \<Longrightarrow>
     \<exists>n. getBTreeHeight k h this = Some n"
proof (induction k arbitrary: this)
  case 0
  then show ?case by simp
next
  case (Suc k)
  have child: "\<exists>v. optional_call (getBTreeHeight k h) child = Some v"
    if "child = leftChild (h ! this) \<or> child = rightChild (h ! this)" for child
  proof (cases child)
    case None
    then show ?thesis by (simp add: optional_call_def)
  next
    case (Some c)
    then have "this < c \<and> c < length h"
      using that Suc.prems(1,2) unfolding forward_refs_def by metis
    moreover from this have "length h - c \<le> k"
      using Suc.prems(3) by linarith
    ultimately have "\<exists>n. getBTreeHeight k h c = Some n"
      using Suc.IH [of c] Suc.prems(1) by blast
    then show ?thesis using Some by (auto simp: optional_call_def)
  qed
  from child [of "leftChild (h ! this)"] child [of "rightChild (h ! this)"]
  show ?case unfolding getBTreeHeight_Suc by blast
qed

text \<open>
  C4: on a store without cycles (child references point forward) \<open>getBTreeHeight\<close>
  returns for every node, given a call stack as deep as the store is long; and whenever
  it returns, the result is at least \<open>1\<close> and is \<open>1 + max\<close> of the heights of the two
  child slots, an empty slot counting \<open>0\<close>, so that a node without children has
  height \<open>1\<close>.  The method has no effect on the store: it reads the store and returns
  a number only.
\<close>

theorem getBTreeHeight_one_plus_max:
  "(forward_refs h \<and> this < length h \<and> length h \<le> k \<longrightarrow>
      (\<exists>n. getBTreeHeight k h this = Some n))
   \<and> (getBTreeHeight k h this = Some n \<longrightarrow>
        1 \<le> n
        \<and> (\<exists>hl hr. subtree_height k h (leftChild (h ! this)) = Some hl
              \<and> subtree_height k h (rightChild (h ! this)) = Some hr
              \<and> n = 1 + max hl hr)
        \<and> (leftChild (h ! this) = None \<and> rightChild (h ! this) = None \<longrightarrow> n = 1))"
proof (intro conjI impI)
  assume "forward_refs h \<and> this < length h \<and> length h \<le> k"
  then show "\<exists>n. getBTreeHeight k h this = Some n"
    using getBTreeHeight_returns [of h this k] by (simp add: le_diff_conv)
next
  assume "getBTreeHeight k h this = Some n"
  then show "1 \<le> n" by (rule getBTreeHeight_pos)
next
  assume a: "getBTreeHeight k h this = Some n"
  then obtain k' where k: "k = Suc k'" by (cases k) simp_all
  from a obtain l r where
    l: "optional_call (getBTreeHeight k' h) (leftChild (h ! this)) = Some l" and
    r: "optional_call (getBTreeHeight k' h) (rightChild (h ! this)) = Some r" and
    n: "n = max (or_zero l) (or_zero r) + 1"
    unfolding k getBTreeHeight_Suc by blast
  have up: "subtree_height k' h child = Some m \<Longrightarrow> subtree_height k h child = Some m" for child m
    unfolding k subtree_height_def
    by (cases child) (simp_all add: getBTreeHeight_mono_Suc)
  have "subtree_height k h (leftChild (h ! this)) = Some (or_zero l)"
    using or_zero_height [OF l] by (rule up)
  moreover have "subtree_height k h (rightChild (h ! this)) = Some (or_zero r)"
    using or_zero_height [OF r] by (rule up)
  ultimately show "\<exists>hl hr. subtree_height k h (leftChild (h ! this)) = Some hl
              \<and> subtree_height k h (rightChild (h ! this)) = Some hr
              \<and> n = 1 + max hl hr"
    using n by simp
next
  assume a: "getBTreeHeight k h this = Some n"
    and b: "leftChild (h ! this) = None \<and> rightChild (h ! this) = None"
  then obtain k' where k: "k = Suc k'" by (cases k) simp_all
  show "n = 1"
    using a b unfolding k by (simp add: getBTreeHeight_Suc optional_call_def or_zero_def)
qed

theorem getBTreeHeight_one_plus_max_witness:
  "forward_refs [\<lparr>node_value = Str ''1'', leftChild = None, rightChild = Some 1\<rparr>,
                 \<lparr>node_value = Str ''2'', leftChild = None, rightChild = None\<rparr>]
   \<and> getBTreeHeight 2 [\<lparr>node_value = Str ''1'', leftChild = None, rightChild = Some 1\<rparr>,
                 \<lparr>node_value = Str ''2'', leftChild = None, rightChild = None\<rparr>] 0 = Some 2
   \<and> subtree_height 2 [\<lparr>node_value = Str ''1'', leftChild = None, rightChild = Some 1\<rparr>,
                 \<lparr>node_value = Str ''2'', leftChild = None, rightChild = None\<rparr>] None = Some 0
   \<and> subtree_height 2 [\<lparr>node_value = Str ''1'', leftChild = None, rightChild = Some 1\<rparr>,
                 \<lparr>node_value = Str ''2'', leftChild = None, rightChild = None\<rparr>] (Some 1) = Some 1
   \<and> getBTreeHeight 2 [\<lparr>node_value = Str ''1'', leftChild = None, rightChild = Some 1\<rparr>,
                 \<lparr>node_value = Str ''2'', leftChild = None, rightChild = None\<rparr>] 1 = Some 1"
proof -
  let ?H = "[\<lparr>node_value = Str ''1'', leftChild = None, rightChild = Some 1\<rparr>,
             \<lparr>node_value = Str ''2'', leftChild = None, rightChild = None\<rparr>]"
  have t: "treeConstructor ''1,null,2'' = (?H, 0)" by code_simp
  have fwd: "forward_refs ?H"
    using treeConstructor_forward_refs [of "''1,null,2''"] unfolding t by simp
  then obtain n where n: "getBTreeHeight 2 ?H 0 = Some n"
    using getBTreeHeight_one_plus_max [where h = ?H and this = 0 and k = 2] by auto
  obtain m where m: "getBTreeHeight 2 ?H 1 = Some m"
    using fwd getBTreeHeight_one_plus_max [where h = ?H and this = 1 and k = 2] by auto
  from m have "m = 1"
    using getBTreeHeight_one_plus_max [where h = ?H and this = 1 and k = 2 and n = m] by simp
  moreover from n have "\<exists>hl hr. subtree_height 2 ?H (leftChild (?H ! 0)) = Some hl
              \<and> subtree_height 2 ?H (rightChild (?H ! 0)) = Some hr
              \<and> n = 1 + max hl hr"
    using getBTreeHeight_one_plus_max [where h = ?H and this = 0 and k = 2 and n = n] by blast
  ultimately show ?thesis using fwd n m by (auto simp: subtree_height_def)
qed



section \<open>The layout pass\<close>

lemma recursivelyDrawNodes_Suc:
  "recursivelyDrawNodes (Suc k) a L (xs, xe) w =
     draw_left k a L xs xe (draw_self a L xs xe w) \<bind> (\<lambda>w2. draw_right k a L xs xe w2)"
  unfolding draw_left_def draw_right_def draw_self_def edge_y_def
  by (simp add: Let_def)

declare recursivelyDrawNodes.simps(2) [simp del]

lemma recursivelyDrawNodes_Suc_Some:
  "recursivelyDrawNodes (Suc k) a L (xs, xe) w = Some w' \<longleftrightarrow>
     (\<exists>w2. draw_left k a L xs xe (draw_self a L xs xe w) = Some w2
          \<and> draw_right k a L xs xe w2 = Some w')"
  by (simp add: recursivelyDrawNodes_Suc bind_eq_Some_conv)

lemma draw_left_Some:
  "draw_left k a L xs xe w1 = Some w2 \<longleftrightarrow>
     (leftChild (nodes w1 ! a) = None \<and> w2 = w1)
     \<or> (\<exists>l wl. leftChild (nodes w1 ! a) = Some l
           \<and> recursivelyDrawNodes k l (L + 1) (xs, (xs + xe) / 2) w1 = Some wl
           \<and> w2 = connectEdges ((xs + xe) / 2, (xs + (xs + xe) / 2) / 2) (edge_y L) wl)"
  by (cases "leftChild (nodes w1 ! a)") (auto simp: draw_left_def bind_eq_Some_conv)

lemma draw_right_Some:
  "draw_right k a L xs xe w2 = Some w' \<longleftrightarrow>
     (rightChild (nodes w2 ! a) = None \<and> w' = w2)
     \<or> (\<exists>r wr. rightChild (nodes w2 ! a) = Some r
           \<and> recursivelyDrawNodes k r (L + 1) ((xs + xe) / 2, xe) w2 = Some wr
           \<and> w' = connectEdges ((xs + xe) / 2, ((xs + xe) / 2 + xe) / 2) (edge_y L) wr)"
  by (cases "rightChild (nodes w2 ! a)") (auto simp: draw_right_def bind_eq_Some_conv)

lemma extends_refl: "extends w w"
  by (simp add: extends_def new_calls_def)

lemma new_calls_trans:
  "extends w u \<Longrightarrow> extends u w' \<Longrightarrow> new_calls w w' = new_calls w u @ new_calls u w'"
  by (simp add: extends_def new_calls_def) (metis append_eq_conv_conj append.assoc)

lemma extends_trans: "extends w u \<Longrightarrow> extends u w' \<Longrightarrow> extends w w'"
  by (simp add: extends_def new_calls_def) (metis append_eq_conv_conj append.assoc)

lemma extends_drawNode: "extends w (drawNode v x y w)"
  and new_calls_drawNode: "new_calls w (drawNode v x y w) = [DrawNode v x y]"
  by (simp_all add: extends_def new_calls_def drawNode_def)

lemma extends_connectEdges: "extends w (connectEdges xc yc w)"
  and new_calls_connectEdges: "new_calls w (connectEdges xc yc w) = [ConnectEdges xc yc]"
  by (simp_all add: extends_def new_calls_def connectEdges_def)

lemma draw_self_extends: "extends w (draw_self a L xs xe w)"
  and new_calls_draw_self:
    "new_calls w (draw_self a L xs xe w) =
       [DrawNode (node_value (nodes w ! a)) ((xs + xe) / 2)
          (L * nodeHeightSpacing DEFAULT_NODE_CONFIG)]"
  by (simp_all add: draw_self_def extends_drawNode new_calls_drawNode)

lemma recursivelyDrawNodes_extends:
  "recursivelyDrawNodes k a L I w = Some w' \<Longrightarrow> extends w w'"
proof (induction k arbitrary: a L I w w')
  case 0
  then show ?case by simp
next
  case (Suc k)
  obtain xs xe where I: "I = (xs, xe)" by (cases I)
  from Suc.prems obtain w2 where
    left: "draw_left k a L xs xe (draw_self a L xs xe w) = Some w2"
    and right: "draw_right k a L xs xe w2 = Some w'"
    unfolding I recursivelyDrawNodes_Suc_Some by blast
  have step: "extends u (connectEdges xc yc u')"
    if "recursivelyDrawNodes k c L' I' u = Some u'" for c L' I' u u' xc yc
    using Suc.IH [OF that] extends_connectEdges [of u' xc yc] by (rule extends_trans)
  have "extends (draw_self a L xs xe w) w2"
    using left unfolding draw_left_Some by (auto intro: extends_refl step)
  moreover have "extends w2 w'"
    using right unfolding draw_right_Some by (auto intro: extends_refl step)
  ultimately show ?case
    using draw_self_extends extends_trans by blast
qed


lemma draw_left_cases:
  assumes "draw_left k a L xs xe w1 = Some w2"
  obtains (none) "leftChild (nodes w1 ! a) = None" "w2 = w1"
  | (some) l wl where "leftChild (nodes w1 ! a) = Some l"
      "recursivelyDrawNodes k l (L + 1) (xs, (xs + xe) / 2) w1 = Some wl"
      "extends w1 wl" "extends w1 w2"
      "new_calls w1 w2 = new_calls w1 wl
         @ [ConnectEdges ((xs + xe) / 2, (xs + (xs + xe) / 2) / 2) (edge_y L)]"
proof -
  from assms consider "leftChild (nodes w1 ! a) = None \<and> w2 = w1"
    | l wl where "leftChild (nodes w1 ! a) = Some l"
      "recursivelyDrawNodes k l (L + 1) (xs, (xs + xe) / 2) w1 = Some wl"
      "w2 = connectEdges ((xs + xe) / 2, (xs + (xs + xe) / 2) / 2) (edge_y L) wl"
    unfolding draw_left_Some by blast
  then show thesis
  proof cases
    case 1
    then show ?thesis using none by blast
  next
    case (2 l wl)
    have e1: "extends w1 wl" using 2(2) by (rule recursivelyDrawNodes_extends)
    have e2: "extends wl w2" unfolding 2(3) by (rule extends_connectEdges)
    have "new_calls w1 w2 = new_calls w1 wl @ new_calls wl w2"
      using e1 e2 by (rule new_calls_trans)
    then have "new_calls w1 w2 = new_calls w1 wl
         @ [ConnectEdges ((xs + xe) / 2, (xs + (xs + xe) / 2) / 2) (edge_y L)]"
      unfolding 2(3) by (simp add: new_calls_connectEdges)
    then show ?thesis using some 2(1,2) e1 extends_trans [OF e1 e2] by blast
  qed
qed









lemma recursivelyDrawNodes_returns:
  "forward_refs (nodes w) \<Longrightarrow> a < length (nodes w) \<Longrightarrow> length (nodes w) - a \<le> k \<Longrightarrow>
     \<exists>w'. recursivelyDrawNodes k a L I w = Some w'"
proof (induction k arbitrary: a L I w)
  case 0
  then show ?case by simp
next
  case (Suc k)
  obtain xs xe where I: "I = (xs, xe)" by (cases I)
  let ?w1 = "draw_self a L xs xe w"
  have n1: "nodes ?w1 = nodes w"
    using draw_self_extends [of w a L xs xe] by (simp add: extends_def)
  have child: "\<exists>u'. recursivelyDrawNodes k c L' I' u = Some u'"
    if "nodes u = nodes w" "leftChild (nodes w ! a) = Some c \<or> rightChild (nodes w ! a) = Some c"
    for c L' I' u
  proof -
    have c: "a < c \<and> c < length (nodes w)"
      using that(2) Suc.prems(1,2) unfolding forward_refs_def by blast
    moreover from this have "length (nodes w) - c \<le> k" using Suc.prems(3) by linarith
    ultimately show ?thesis
      using Suc.IH [of u c L' I'] Suc.prems(1) that(1) by simp
  qed
  obtain w2 where left: "draw_left k a L xs xe ?w1 = Some w2"
  proof (cases "leftChild (nodes w ! a)")
    case None
    then show ?thesis using that n1 by (simp add: draw_left_def)
  next
    case (Some c)
    then obtain wl where "recursivelyDrawNodes k c (L + 1) (xs, (xs + xe) / 2) ?w1 = Some wl"
      using child [OF n1] by blast
    then show ?thesis using that Some n1 by (simp add: draw_left_def)
  qed
  have n2: "nodes w2 = nodes w"
    using left n1 by (cases rule: draw_left_cases) (simp_all add: extends_def)
  obtain w' where "draw_right k a L xs xe w2 = Some w'"
  proof (cases "rightChild (nodes w ! a)")
    case None
    then show ?thesis using that n2 by (simp add: draw_right_def)
  next
    case (Some c)
    then obtain wr where "recursivelyDrawNodes k c (L + 1) ((xs + xe) / 2, xe) w2 = Some wr"
      using child [OF n2] by blast
    then show ?thesis using that Some n2 by (simp add: draw_right_def)
  qed
  then show ?case using left unfolding I recursivelyDrawNodes_Suc_Some by blast
qed

lemma drawBTree_Some:
  "drawBTree k rootEl innerWidth innerHeight w = Some w' \<longleftrightarrow>
     (\<exists>sz. getRequiredHeightWidth k (nodes w) rootEl = Some sz
        \<and> recursivelyDrawNodes k rootEl (1 / 2)
            (innerWidth / 2 - canvasWidth sz / 2, innerWidth / 2 + canvasWidth sz / 2)
            (w\<lparr>canvas_width := innerWidth, canvas_height := innerHeight\<rparr>) = Some w')"
  by (simp add: drawBTree_def Let_def bind_eq_Some_conv)

lemma getRequiredHeightWidth_Some:
  "getRequiredHeightWidth k h r = Some sz \<longleftrightarrow>
     (\<exists>ht. getBTreeHeight k h r = Some ht
        \<and> sz = \<lparr>canvasWidth = 2 ^ ht * nodeWidthSpacing DEFAULT_NODE_CONFIG,
                 canvasHeight = of_nat ht * nodeHeightSpacing DEFAULT_NODE_CONFIG\<rparr>)"
  by (auto simp: getRequiredHeightWidth_def bind_eq_Some_conv)

lemma drawBTree_returns:
  assumes "forward_refs (nodes w)" and "rootEl < length (nodes w)" and "length (nodes w) \<le> k"
  shows "\<exists>w'. drawBTree k rootEl innerWidth innerHeight w = Some w'"
proof -
  have "length (nodes w) - rootEl \<le> k" using assms(3) by simp
  then obtain ht where "getBTreeHeight k (nodes w) rootEl = Some ht"
    using getBTreeHeight_returns [OF assms(1,2)] by blast
  then obtain sz where sz: "getRequiredHeightWidth k (nodes w) rootEl = Some sz"
    unfolding getRequiredHeightWidth_Some by blast
  let ?w1 = "w\<lparr>canvas_width := innerWidth, canvas_height := innerHeight\<rparr>"
  have "\<exists>w'. recursivelyDrawNodes k rootEl (1 / 2)
            (innerWidth / 2 - canvasWidth sz / 2, innerWidth / 2 + canvasWidth sz / 2)
            ?w1 = Some w'"
    using assms by (intro recursivelyDrawNodes_returns) simp_all
  then show ?thesis using sz unfolding drawBTree_Some by blast
qed

text \<open>
  C9: the layout pass leaves every node as it was.  \<open>drawBTree\<close> returns on every
  store without cycles, given a call stack as deep as the store is long; and whenever
  \<open>drawBTree\<close> or \<open>recursivelyDrawNodes\<close> returns, the store of nodes in the resulting
  state is the store it started from: no value and no child slot has changed.
\<close>

theorem layout_leaves_nodes_unchanged:
  "(forward_refs (nodes w) \<and> rootEl < length (nodes w) \<and> length (nodes w) \<le> k \<longrightarrow>
      (\<exists>w'. drawBTree k rootEl innerWidth innerHeight w = Some w'))
   \<and> (drawBTree k rootEl innerWidth innerHeight w = Some w' \<longrightarrow> nodes w' = nodes w)
   \<and> (recursivelyDrawNodes k a L I w = Some w' \<longrightarrow> nodes w' = nodes w)"
proof (intro conjI impI)
  assume "forward_refs (nodes w) \<and> rootEl < length (nodes w) \<and> length (nodes w) \<le> k"
  then show "\<exists>w'. drawBTree k rootEl innerWidth innerHeight w = Some w'"
    using drawBTree_returns by blast
next
  assume "drawBTree k rootEl innerWidth innerHeight w = Some w'"
  then obtain sz where "getRequiredHeightWidth k (nodes w) rootEl = Some sz"
    and "recursivelyDrawNodes k rootEl (1 / 2)
            (innerWidth / 2 - canvasWidth sz / 2, innerWidth / 2 + canvasWidth sz / 2)
            (w\<lparr>canvas_width := innerWidth, canvas_height := innerHeight\<rparr>) = Some w'"
    unfolding drawBTree_Some by blast
  from recursivelyDrawNodes_extends [OF this(2)] show "nodes w' = nodes w"
    by (simp add: extends_def)
next
  assume "recursivelyDrawNodes k a L I w = Some w'"
  from recursivelyDrawNodes_extends [OF this] show "nodes w' = nodes w"
    by (simp add: extends_def)
qed

theorem layout_leaves_nodes_unchanged_witness:
  "forward_refs (fst (treeConstructor ''5,3,8''))
   \<and> (\<exists>w'. drawBTree 3 0 1000 800
          \<lparr>nodes = fst (treeConstructor ''5,3,8''), canvas_width = 0, canvas_height = 0,
           calls = []\<rparr> = Some w'
        \<and> nodes w' = fst (treeConstructor ''5,3,8''))"
proof -
  let ?w = "\<lparr>nodes = fst (treeConstructor ''5,3,8''), canvas_width = 0, canvas_height = 0,
             calls = []\<rparr>"
  have t: "treeConstructor ''5,3,8'' =
    ([\<lparr>node_value = Str ''5'', leftChild = Some 1, rightChild = Some 2\<rparr>,
      \<lparr>node_value = Str ''3'', leftChild = None, rightChild = None\<rparr>,
      \<lparr>node_value = Str ''8'', leftChild = None, rightChild = None\<rparr>], 0)"
    by code_simp
  have f: "forward_refs (nodes ?w)" by (simp add: treeConstructor_forward_refs)
  have l: "0 < length (nodes ?w)" "length (nodes ?w) \<le> 3" by (simp_all add: t)
  note inst = layout_leaves_nodes_unchanged
    [where w = ?w and rootEl = 0 and k = 3 and innerWidth = 1000 and innerHeight = 800]
  from inst f l obtain w' where run: "drawBTree 3 0 1000 800 ?w = Some w'" by blast
  with inst [where w' = w'] have "nodes w' = nodes ?w" by blast
  with run f show ?thesis by auto
qed







end
